theory Spec2Isabelle
  imports Main "HOL-Library.Word"
begin

section \<open>JavaScript strings\<close>

text \<open>
  A JavaScript string is a sequence of UTF-16 code units; \<open>.length\<close> counts code units
  and the regular expressions of the page (no \<open>u\<close> flag) work on code units too.
\<close>

type_synonym jschar = "16 word"
type_synonym jsstring = "jschar list"

text \<open>An ASCII literal of the source as a JavaScript string.\<close>

definition js :: "string \<Rightarrow> jsstring" where
  "js s = map of_char s"

text \<open>
  The characters removed by \<open>String.prototype.trim\<close> and matched by \<open>\s\<close>:
  ECMAScript's WhiteSpace and LineTerminator code points.
\<close>

definition is_space :: "jschar \<Rightarrow> bool" where
  "is_space c \<longleftrightarrow>
     c = 0x09 \<or> c = 0x0A \<or> c = 0x0B \<or> c = 0x0C \<or> c = 0x0D \<or> c = 0x20 \<or> c = 0xA0 \<or>
     c = 0x1680 \<or> (0x2000 \<le> c \<and> c \<le> 0x200A) \<or> c = 0x2028 \<or> c = 0x2029 \<or>
     c = 0x202F \<or> c = 0x205F \<or> c = 0x3000 \<or> c = 0xFEFF"

definition sp :: jschar where
  "sp = 0x20"

definition trim :: "jsstring \<Rightarrow> jsstring" where
  "trim s = rev (dropWhile is_space (rev (dropWhile is_space s)))"

section \<open>The segmenter: \<open>splitText\<close>\<close>

text \<open>
  The two alternatives of \<open>sentenceRe = /([.!??]+|\n+)/g\<close>, as the class stands in the
  source file: a run of the characters \<open>.\<close>, \<open>!\<close>, \<open>?\<close>, or a run of line feeds.
\<close>

definition is_term :: "jschar \<Rightarrow> bool" where
  "is_term c \<longleftrightarrow> c = 0x2E \<or> c = 0x21 \<or> c = 0x3F"

definition is_nl :: "jschar \<Rightarrow> bool" where
  "is_nl c \<longleftrightarrow> c = 0x0A"

text \<open>
  The \<open>while ((match = sentenceRe.exec(remaining)) !== null)\<close> loop followed by the tail.
  \<open>seg\<close> is \<open>remaining.slice(lastIndex, i)\<close> for the position \<open>i\<close> the scan has reached and
  the list argument is \<open>remaining.slice(i)\<close>. The leftmost match starts at the first
  character of one of the two classes and, both alternatives being greedy, takes the
  whole run of that class; \<open>end\<close> is the position after the run.
\<close>

function split_parts :: "jsstring \<Rightarrow> jsstring \<Rightarrow> jsstring list" where
  "split_parts seg [] =
     (let tail = trim seg in if tail \<noteq> [] then [tail] else [])"
| "split_parts seg (c # cs) =
     (if is_term c then
        (let segment = trim (seg @ c # takeWhile is_term cs)
         in (if segment \<noteq> [] then [segment] else []) @ split_parts [] (dropWhile is_term cs))
      else if is_nl c then
        (let segment = trim (seg @ c # takeWhile is_nl cs)
         in (if segment \<noteq> [] then [segment] else []) @ split_parts [] (dropWhile is_nl cs))
      else split_parts (seg @ [c]) cs)"
  by pat_completeness auto
termination
  by (relation "measure (\<lambda>(seg, s). length s)")
     (auto simp: length_dropWhile_le less_Suc_eq_le)

text \<open>
  The merge loop \<open>for (const p of parts)\<close> with its buffer \<open>buf\<close>, and the final
  \<open>if (buf) merged.push(buf)\<close>. \<open>maxLen\<close> is a whole number, as the 1800 of the only
  caller.
\<close>

fun merge_parts :: "int \<Rightarrow> jsstring \<Rightarrow> jsstring list \<Rightarrow> jsstring list" where
  "merge_parts maxLen buf [] = (if buf \<noteq> [] then [buf] else [])"
| "merge_parts maxLen buf (p # ps) =
     (if int (length (trim (buf @ [sp] @ p))) \<le> maxLen
      then merge_parts maxLen ((if buf \<noteq> [] then buf @ [sp] else []) @ p) ps
      else (if buf \<noteq> [] then [buf] else []) @ merge_parts maxLen p ps)"

definition splitText :: "jsstring \<Rightarrow> int \<Rightarrow> jsstring list" where
  "splitText input maxLen =
     (let remaining = trim input;
          parts = split_parts [] remaining;
          merged = merge_parts maxLen [] parts
      in if merged \<noteq> [] then merged else [remaining])"

text \<open>Whether a chunk has a split point inside: it is a stretch without terminator or
  line feed, followed by terminators only.\<close>

definition is_break :: "jschar \<Rightarrow> bool" where
  "is_break c \<longleftrightarrow> is_term c \<or> is_nl c"

definition unsplittable :: "jsstring \<Rightarrow> bool" where
  "unsplittable c \<longleftrightarrow> list_all is_term (dropWhile (\<lambda>x. \<not> is_break x) c)"

text \<open>\<open>Array.prototype.join(" ")\<close>.\<close>

fun join_sp :: "jsstring list \<Rightarrow> jsstring" where
  "join_sp [] = []"
| "join_sp [p] = p"
| "join_sp (p # q # ps) = p @ [sp] @ join_sp (q # ps)"

text \<open>
  \<open>gapped ps s\<close>: the string \<open>s\<close> is the strings \<open>ps\<close> in this order, with nothing but
  whitespace before, between and after them.
\<close>

fun gapped :: "jsstring list \<Rightarrow> jsstring \<Rightarrow> bool" where
  "gapped [] s = list_all is_space s"
| "gapped (p # ps) s =
     (let r = dropWhile is_space s
      in take (length p) r = p \<and> gapped ps (drop (length p) r))"

section \<open>Word wrap: \<open>wrapText\<close>\<close>

text \<open>\<open>text.replace(/\s+/g, " ")\<close>: every maximal run of whitespace becomes one space.\<close>

function collapse_ws :: "jsstring \<Rightarrow> jsstring" where
  "collapse_ws [] = []"
| "collapse_ws (c # cs) =
     (if is_space c then sp # collapse_ws (dropWhile is_space cs) else c # collapse_ws cs)"
  by pat_completeness auto
termination
  by (relation "measure length") (auto simp: length_dropWhile_le less_Suc_eq_le)

text \<open>\<open>String.prototype.split(" ")\<close>; \<open>cur\<close> is the piece being read.\<close>

fun split_from :: "jsstring \<Rightarrow> jsstring \<Rightarrow> jsstring list" where
  "split_from cur [] = [cur]"
| "split_from cur (c # cs) =
     (if c = sp then cur # split_from [] cs else split_from (cur @ [c]) cs)"

definition split_sp :: "jsstring \<Rightarrow> jsstring list" where
  "split_sp s = split_from [] s"

text \<open>
  The loop \<open>for (const w of words)\<close> of \<open>wrapText\<close> with its variable \<open>line\<close>, and the final
  \<open>if (line) lines.push(line)\<close>. \<open>measureText\<close> stands for \<open>ctx.measureText(_).width\<close>;
  widths are numbers of any linearly ordered type.
\<close>

fun wrap_words :: "(jsstring \<Rightarrow> 'w::linorder) \<Rightarrow> 'w \<Rightarrow> jsstring \<Rightarrow> jsstring list \<Rightarrow> jsstring list" where
  "wrap_words measureText maxWidth line [] = (if line \<noteq> [] then [line] else [])"
| "wrap_words measureText maxWidth line (w # ws) =
     (let test = (if line \<noteq> [] then line @ [sp] else []) @ w
      in if measureText test > maxWidth
         then (if line \<noteq> [] then [line] else []) @ wrap_words measureText maxWidth w ws
         else wrap_words measureText maxWidth test ws)"

definition wrapText :: "(jsstring \<Rightarrow> 'w::linorder) \<Rightarrow> jsstring \<Rightarrow> 'w \<Rightarrow> jsstring list" where
  "wrapText measureText txt maxWidth =
     (let words = split_sp (trim (collapse_ws txt))
      in wrap_words measureText maxWidth [] words)"

section \<open>The page: job state, platform and pipeline\<close>

datatype status = Idle | Capturing | Encoding | Ready | Error

datatype blob = Blob (blob_bytes: "8 word list") (blob_type: string)

text \<open>The result of \<open>URL.createObjectURL(blob)\<close>, a reference to that blob.\<close>

datatype object_url = ObjectURL blob

text \<open>\<open>type JobState\<close>; \<open>'n\<close> is the type of the numbers typed into the form.\<close>

record 'n JobState =
  jobText :: jsstring
  voiceURI :: "jsstring option"
  rate :: 'n
  pitch :: 'n
  volume :: 'n
  mp3Url :: "object_url option"
  mp4Url :: "object_url option"
  imageUrl :: "object_url option"
  durationMs :: "int option"
  status :: status
  error :: "jsstring option"
  progress :: "int option"

text \<open>
  A thrown or rejected value \<open>err\<close>, as far as the page looks at it: \<open>err?.message\<close>
  (\<open>None\<close> when null or undefined) and \<open>String(err)\<close>.
\<close>

datatype js_error = JsError (err_message: "jsstring option") (err_string: jsstring)

text \<open>\<open>err?.message ?? String(err)\<close>\<close>

definition error_text :: "js_error \<Rightarrow> jsstring" where
  "error_text err = (case err_message err of Some m \<Rightarrow> m | None \<Rightarrow> err_string err)"

text \<open>How a promise of the platform ends: resolved, rejected, or never settled.\<close>

datatype 'a settled = Resolved 'a | Rejected js_error | Pending

record 'n utterance =
  u_text :: jsstring
  u_voice :: "jsstring option"
  u_rate :: 'n
  u_pitch :: 'n
  u_volume :: 'n

text \<open>
  What the page does to the platform, what the platform calls back, and every
  \<open>setState\<close> with the job state it produces, in the order they happen. The number in
  \<open>Speak\<close>, \<open>UtteranceEnd\<close> and \<open>UtteranceError\<close> is the index of the chunk; the number in
  the \<open>FFmpeg\<close> events tells the two \<open>new FFmpeg()\<close> instances apart (0 in
  \<open>transcodeWebmToMp3\<close>, 1 in \<open>composeVideo\<close>).
\<close>

datatype 'n event =
    GetDisplayMedia
  | StopVideoTrackLater
  | RecorderStart
  | RecorderStop
  | SynthCancel
  | Speak nat "'n utterance"
  | UtteranceEnd nat
  | UtteranceError nat js_error
  | FFmpegLoad nat
  | FFmpegWriteFile nat string blob
  | FFmpegExec nat "string list"
  | FFmpegReadFile nat string
  | CanvasRender jsstring nat nat
  | SetState "'n JobState"

text \<open>
  The behaviour of the black boxes during one run: the speech synthesizer, the capture
  and recording service, the clock, the encoder and the canvas. \<open>utterance i c\<close> is
  what the synthesizer does with the utterance of chunk \<open>i\<close>: \<open>Resolved\<close> is the \<open>end\<close>
  event, \<open>Rejected\<close> the \<open>error\<close> event with \<open>e.error ?? e\<close>, \<open>Pending\<close> neither.
  \<open>round25 i n\<close> is \<open>Math.round((i / n) * 25)\<close>, computed by the JavaScript engine in
  double precision.
\<close>

record platform =
  voices :: "jsstring list"
  speaking :: bool
  displayMedia :: "unit settled"
  recorderStart :: "unit settled"
  utterance :: "nat \<Rightarrow> jsstring \<Rightarrow> unit settled"
  recorderStop :: "blob settled"
  startedAt :: int
  stoppedAt :: int
  round25 :: "nat \<Rightarrow> nat \<Rightarrow> int"
  ffmpegLoad :: "nat \<Rightarrow> unit settled"
  ffmpegWriteFile :: "nat \<Rightarrow> string \<Rightarrow> blob \<Rightarrow> unit settled"
  ffmpegExec :: "nat \<Rightarrow> string list \<Rightarrow> unit settled"
  ffmpegReadFile :: "nat \<Rightarrow> string \<Rightarrow> 8 word list settled"
  canvasToBlob :: "blob option"

text \<open>The component: the \<open>state\<close> and \<open>isBusy\<close> hooks, and the events so far.\<close>

record 'n world =
  state :: "'n JobState"
  isBusy :: bool
  trace :: "'n event list"

definition emit :: "'n event \<Rightarrow> 'n world \<Rightarrow> 'n world" where
  "emit e w = w\<lparr>trace := trace w @ [e]\<rparr>"

definition setState :: "('n JobState \<Rightarrow> 'n JobState) \<Rightarrow> 'n world \<Rightarrow> 'n world" where
  "setState f w = emit (SetState (f (state w))) (w\<lparr>state := f (state w)\<rparr>)"

definition setIsBusy :: "bool \<Rightarrow> 'n world \<Rightarrow> 'n world" where
  "setIsBusy b w = w\<lparr>isBusy := b\<rparr>"

text \<open>
  \<open>await m\<close> followed by the rest \<open>k\<close> of an async function: a rejection leaves the
  function at once, a promise that never settles stops it there.
\<close>

definition await ::
  "('s \<Rightarrow> 'a settled \<times> 's) \<Rightarrow> ('a \<Rightarrow> 's \<Rightarrow> 'b settled \<times> 's) \<Rightarrow> 's \<Rightarrow> 'b settled \<times> 's" where
  "await m k w =
     (case m w of
        (Resolved x, w') \<Rightarrow> k x w'
      | (Rejected e, w') \<Rightarrow> (Rejected e, w')
      | (Pending, w') \<Rightarrow> (Pending, w'))"

text \<open>A call of the platform: the event, and the platform's answer.\<close>

definition invoke :: "'n event \<Rightarrow> 'a settled \<Rightarrow> 'n world \<Rightarrow> 'a settled \<times> 'n world" where
  "invoke e r w = (r, emit e w)"

subsection \<open>\<open>speakChunk\<close> and \<open>speakText\<close>\<close>

text \<open>
  \<open>st\<close> is the \<open>state\<close> of the render whose handlers are running; \<open>selectedVoice\<close> is the
  voice of the list with \<open>state.voiceURI\<close>, if there is one.
\<close>

definition speakChunk :: "platform \<Rightarrow> 'n JobState \<Rightarrow> nat \<Rightarrow> jsstring \<Rightarrow> 'n world \<Rightarrow> 'n world" where
  "speakChunk pf st index chunk w =
     emit (Speak index
       \<lparr>u_text = chunk,
        u_voice = (case voiceURI st of
                     Some v \<Rightarrow> if v \<in> set (voices pf) then Some v else None
                   | None \<Rightarrow> None),
        u_rate = rate st, u_pitch = pitch st, u_volume = volume st\<rparr>) w"

text \<open>
  \<open>speakChunk(chunks[index], onEnd, reject)\<close> and what follows from it: on \<open>error\<close> the
  promise is rejected; on \<open>end\<close>, \<open>onEnd\<close> adds one to \<open>index\<close>, sets the progress and
  either speaks the next chunk or resolves. \<open>n\<close> is \<open>chunks.length\<close> and the list is
  \<open>chunks.slice(index)\<close>.
\<close>

fun speak_from ::
  "platform \<Rightarrow> 'n JobState \<Rightarrow> nat \<Rightarrow> nat \<Rightarrow> jsstring list \<Rightarrow> 'n world \<Rightarrow> unit settled \<times> 'n world" where
  "speak_from pf st n index [] w = (Resolved (), w)"
| "speak_from pf st n index (chunk # rest) w =
     (let w1 = speakChunk pf st index chunk w
      in case utterance pf index chunk of
           Rejected e \<Rightarrow> (Rejected e, emit (UtteranceError index e) w1)
         | Pending \<Rightarrow> (Pending, w1)
         | Resolved _ \<Rightarrow>
             speak_from pf st n (index + 1) rest
               (setState (\<lambda>s. s\<lparr>progress := Some (round25 pf (index + 1) n)\<rparr>)
                  (emit (UtteranceEnd index) w1)))"

text \<open>
  \<open>splitText\<close> never returns the empty array (lemma \<open>splitText_not_Nil\<close> below), so
  \<open>chunks[0]\<close> is always a chunk.
\<close>

definition speakText :: "platform \<Rightarrow> 'n JobState \<Rightarrow> jsstring \<Rightarrow> 'n world \<Rightarrow> unit settled \<times> 'n world" where
  "speakText pf st txt w =
     (let w0 = (if speaking pf then emit SynthCancel w else w);
          chunks = splitText txt 1800
      in speak_from pf st (length chunks) 0 chunks w0)"

subsection \<open>\<open>transcodeWebmToMp3\<close> and \<open>composeVideo\<close>\<close>

definition transcodeWebmToMp3 ::
  "platform \<Rightarrow> blob \<Rightarrow> (int \<Rightarrow> 'n world \<Rightarrow> 'n world) \<Rightarrow> 'n world \<Rightarrow> blob settled \<times> 'n world" where
  "transcodeWebmToMp3 pf webm onProgress =
     await (invoke (FFmpegLoad 0) (ffmpegLoad pf 0)) (\<lambda>_.
     await (invoke (FFmpegWriteFile 0 ''in.webm'' webm) (ffmpegWriteFile pf 0 ''in.webm'' webm)) (\<lambda>_.
     await (invoke (FFmpegExec 0 [''-i'', ''in.webm'', ''-vn'', ''-acodec'', ''libmp3lame'', ''-b:a'', ''192k'', ''out.mp3''])
              (ffmpegExec pf 0 [''-i'', ''in.webm'', ''-vn'', ''-acodec'', ''libmp3lame'', ''-b:a'', ''192k'', ''out.mp3''])) (\<lambda>_.
     await (invoke (FFmpegReadFile 0 ''out.mp3'') (ffmpegReadFile pf 0 ''out.mp3'')) (\<lambda>data w.
       (Resolved (Blob data ''audio/mpeg''), onProgress 100 w)))))"

definition composeVideo ::
  "platform \<Rightarrow> blob \<Rightarrow> blob \<Rightarrow> (int \<Rightarrow> 'n world \<Rightarrow> 'n world) \<Rightarrow> 'n world \<Rightarrow> blob settled \<times> 'n world" where
  "composeVideo pf mp3Blob imageBlob onProgress w =
     (await (invoke (FFmpegLoad 1) (ffmpegLoad pf 1)) (\<lambda>_.
      await (invoke (FFmpegWriteFile 1 ''bg.png'' imageBlob) (ffmpegWriteFile pf 1 ''bg.png'' imageBlob)) (\<lambda>_.
      await (invoke (FFmpegWriteFile 1 ''audio.mp3'' mp3Blob) (ffmpegWriteFile pf 1 ''audio.mp3'' mp3Blob)) (\<lambda>_.
      await (invoke (FFmpegExec 1 [''-i'', ''audio.mp3'', ''-f'', ''null'', ''-''])
               (ffmpegExec pf 1 [''-i'', ''audio.mp3'', ''-f'', ''null'', ''-''])) (\<lambda>_.
      await (invoke (FFmpegExec 1
                 [''-loop'', ''1'', ''-i'', ''bg.png'', ''-i'', ''audio.mp3'', ''-c:v'', ''libx264'',
                  ''-tune'', ''stillimage'', ''-c:a'', ''aac'', ''-b:a'', ''192k'',
                  ''-pix_fmt'', ''yuv420p'', ''-shortest'', ''-movflags'', ''+faststart'',
                  ''-vf'', ''fps=30,scale=1920:1080:flags=lanczos'', ''out.mp4''])
               (ffmpegExec pf 1
                 [''-loop'', ''1'', ''-i'', ''bg.png'', ''-i'', ''audio.mp3'', ''-c:v'', ''libx264'',
                  ''-tune'', ''stillimage'', ''-c:a'', ''aac'', ''-b:a'', ''192k'',
                  ''-pix_fmt'', ''yuv420p'', ''-shortest'', ''-movflags'', ''+faststart'',
                  ''-vf'', ''fps=30,scale=1920:1080:flags=lanczos'', ''out.mp4''])) (\<lambda>_.
      await (invoke (FFmpegReadFile 1 ''out.mp4'') (ffmpegReadFile pf 1 ''out.mp4'')) (\<lambda>mp4 w'.
        (Resolved (Blob mp4 ''video/mp4''), onProgress 100 w'))))))))
       (setState (\<lambda>s. s\<lparr>status := Encoding, progress := Some 40\<rparr>) w)"

subsection \<open>\<open>generateImageFromText\<close>\<close>

text \<open>
  The drawing is one event, with the body text \<open>text.slice(0, 800)\<close> and the default
  size; \<open>canvas.toBlob\<close> gives a blob or null, and null throws.
\<close>

definition generateImageFromText ::
  "platform \<Rightarrow> jsstring \<Rightarrow> 'n world \<Rightarrow> (blob \<times> object_url) settled \<times> 'n world" where
  "generateImageFromText pf txt w =
     (let w1 = emit (CanvasRender (take 800 txt) 1920 1080) w
      in case canvasToBlob pf of
           None \<Rightarrow> (Rejected (JsError (Some (js ''Falha ao gerar imagem''))
                                 (js ''Error: Falha ao gerar imagem'')), w1)
         | Some b \<Rightarrow> (Resolved (b, ObjectURL b), w1))"

subsection \<open>\<open>speakAndRecord\<close> and \<open>handleGenerate\<close>\<close>

text \<open>The body of the \<open>try\<close> block of \<open>speakAndRecord\<close>.\<close>

definition speakAndRecord_try ::
  "platform \<Rightarrow> 'n JobState \<Rightarrow> jsstring \<Rightarrow> 'n world \<Rightarrow> (blob \<times> int) settled \<times> 'n world" where
  "speakAndRecord_try pf st txt =
     await (invoke GetDisplayMedia (displayMedia pf)) (\<lambda>_.
     await (\<lambda>w'. invoke RecorderStart (recorderStart pf) (emit StopVideoTrackLater w')) (\<lambda>_.
     await (speakText pf st txt) (\<lambda>_.
     await (invoke RecorderStop (recorderStop pf)) (\<lambda>webmBlob.
     await (transcodeWebmToMp3 pf webmBlob
              (\<lambda>p. setState (\<lambda>s. s\<lparr>status := Encoding, progress := Some p\<rparr>))) (\<lambda>mp3Blob w'.
       (Resolved (mp3Blob, stoppedAt pf - startedAt pf),
        setState (\<lambda>s. s\<lparr>mp3Url := Some (ObjectURL mp3Blob),
                          durationMs := Some (stoppedAt pf - startedAt pf)\<rparr>) w'))))))"

text \<open>
  \<open>speakAndRecord\<close>: the two updates before \<open>try\<close>, the body, then \<open>catch\<close> (which
  stores the message and throws again) and \<open>finally\<close>.
\<close>

definition speakAndRecord ::
  "platform \<Rightarrow> 'n JobState \<Rightarrow> jsstring \<Rightarrow> 'n world \<Rightarrow> (blob \<times> int) settled \<times> 'n world" where
  "speakAndRecord pf st txt w =
     (case speakAndRecord_try pf st txt
             (setState (\<lambda>s. s\<lparr>status := Capturing, error := None, progress := Some 0,
                               mp3Url := None, mp4Url := None\<rparr>)
                (setIsBusy True w))
      of
        (Resolved r, w') \<Rightarrow> (Resolved r, setIsBusy False w')
      | (Rejected err, w') \<Rightarrow>
          (Rejected err,
           setIsBusy False (setState (\<lambda>s. s\<lparr>status := Error, error := Some (error_text err)\<rparr>) w'))
      | (Pending, w') \<Rightarrow> (Pending, w'))"

text \<open>The body of the \<open>try\<close> block of \<open>handleGenerate\<close>.\<close>

definition handleGenerate_try ::
  "platform \<Rightarrow> 'n JobState \<Rightarrow> jsstring \<Rightarrow> 'n world \<Rightarrow> unit settled \<times> 'n world" where
  "handleGenerate_try pf st txt =
     await (speakAndRecord pf st txt) (\<lambda>(mp3Blob, duration).
     await (\<lambda>w'. (Resolved (), setState (\<lambda>s. s\<lparr>status := Encoding, progress := Some 55\<rparr>) w')) (\<lambda>_.
     await (generateImageFromText pf txt) (\<lambda>(imageBlob, imgUrl).
     await (\<lambda>w'. (Resolved (), setState (\<lambda>s. s\<lparr>imageUrl := Some imgUrl, progress := Some 65\<rparr>) w')) (\<lambda>_.
     await (composeVideo pf mp3Blob imageBlob
              (\<lambda>p. setState (\<lambda>s. s\<lparr>progress := Some (max 70 p)\<rparr>))) (\<lambda>mp4Blob w'.
       (Resolved (),
        setState (\<lambda>s. s\<lparr>status := Ready, progress := Some 100,
                          mp4Url := Some (ObjectURL mp4Blob),
                          durationMs := Some duration\<rparr>) w'))))))"

text \<open>
  \<open>handleGenerate\<close>: the two early returns, then the pipeline inside \<open>try\<close>; the empty
  \<open>catch\<close> turns every rejection into a normal return.
\<close>

definition handleGenerate :: "platform \<Rightarrow> 'n world \<Rightarrow> unit settled \<times> 'n world" where
  "handleGenerate pf w =
     (let st = state w; txt = trim (jobText st)
      in if txt = [] then (Resolved (), w)
         else if length txt > 200000 then
           (Resolved (), setState (\<lambda>s. s\<lparr>error := Some (js ''O texto excede 200.000 caracteres.'')\<rparr>) w)
         else
           (case handleGenerate_try pf st txt w of
              (Resolved _, w') \<Rightarrow> (Resolved (), w')
            | (Rejected _, w') \<Rightarrow> (Resolved (), w')
            | (Pending, w') \<Rightarrow> (Pending, w')))"

section \<open>Notions used in the statements and proofs\<close>

text \<open>A non-empty string without whitespace at either end.\<close>

definition trimmed :: "jsstring \<Rightarrow> bool" where
  "trimmed s \<longleftrightarrow> s \<noteq> [] \<and> \<not> is_space (hd s) \<and> \<not> is_space (last s)"

text \<open>No two spaces next to each other.\<close>

fun no_double_sp :: "jsstring \<Rightarrow> bool" where
  "no_double_sp (a # b # cs) = (\<not> (a = sp \<and> b = sp) \<and> no_double_sp (b # cs))"
| "no_double_sp cs = True"

text \<open>
  The job state of the first render,
  \<open>useState<JobState>({ text: "", rate: 1, pitch: 1, volume: 1, status: "idle" })\<close>.
\<close>

definition initialState :: "'n::one JobState" where
  "initialState =
     \<lparr>jobText = [], voiceURI = None, rate = 1, pitch = 1, volume = 1,
      mp3Url = None, mp4Url = None, imageUrl = None, durationMs = None,
      status = Idle, error = None, progress = None\<rparr>"

text \<open>The argument lists of the \<open>ffmpeg.exec\<close> calls in a trace, in order.\<close>

fun execs :: "'n event list \<Rightarrow> string list list" where
  "execs [] = []"
| "execs (FFmpegExec k args # evs) = args # execs evs"
| "execs (e # evs) = execs evs"

text \<open>The texts handed to \<open>speechSynthesis.speak\<close> in a trace, in order.\<close>

fun spoken :: "'n event list \<Rightarrow> jsstring list" where
  "spoken [] = []"
| "spoken (Speak i u # evs) = u_text u # spoken evs"
| "spoken (e # evs) = spoken evs"



text \<open>A page in its first render with a text typed in, before any click.\<close>

definition page_with :: "jsstring \<Rightarrow> int world" where
  "page_with t = \<lparr>state = initialState\<lparr>jobText := t\<rparr>, isBusy = False, trace = []\<rparr>"

text \<open>
  A sample platform on which every step succeeds, and the same platform with the capture
  request refused. Its \<open>round25\<close> rounds the exact quotient half up. That is the engine's
  \<open>Math.round((i / n) * 25)\<close> at the two places the examples below use, 25 at (1, 1) and
  13 at (1, 2), but not everywhere: at (29, 50) the engine's double arithmetic gives 14
  and this function 15.
\<close>

definition willing_platform :: platform where
  "willing_platform =
     \<lparr>voices = [], speaking = False,
      displayMedia = Resolved (), recorderStart = Resolved (),
      utterance = (\<lambda>i c. Resolved ()),
      recorderStop = Resolved (Blob [] ''audio/webm''),
      startedAt = 0, stoppedAt = 1000,
      round25 = (\<lambda>i n. if n = 0 then 0 else (50 * int i + int n) div (2 * int n)),
      ffmpegLoad = (\<lambda>k. Resolved ()),
      ffmpegWriteFile = (\<lambda>k f b. Resolved ()),
      ffmpegExec = (\<lambda>k args. Resolved ()),
      ffmpegReadFile = (\<lambda>k f. Resolved []),
      canvasToBlob = Some (Blob [] ''image/png'')\<rparr>"

definition refusing_platform :: "js_error \<Rightarrow> platform" where
  "refusing_platform err = willing_platform\<lparr>displayMedia := Rejected err\<rparr>"



text \<open>
  \<open>in_sequence pr i cs evs\<close>: the events \<open>evs\<close> are a run of the speech loop over the
  chunks \<open>cs\<close>, the first of which has index \<open>i\<close>: each chunk is handed over, ends, and
  the progress \<open>pr (i + 1)\<close> is stored, before the next one is handed over; the run stops
  after the last chunk, at an error, or at an utterance that never ends.
\<close>

inductive in_sequence :: "(nat \<Rightarrow> int) \<Rightarrow> nat \<Rightarrow> jsstring list \<Rightarrow> 'n event list \<Rightarrow> bool" where
  finished: "in_sequence pr i [] []"
| waiting: "u_text u = c \<Longrightarrow> in_sequence pr i (c # cs) [Speak i u]"
| failed: "u_text u = c \<Longrightarrow> in_sequence pr i (c # cs) [Speak i u, UtteranceError i e]"
| ended: "u_text u = c \<Longrightarrow> progress s = Some (pr (Suc i)) \<Longrightarrow> in_sequence pr (Suc i) cs evs \<Longrightarrow>
          in_sequence pr i (c # cs) (Speak i u # UtteranceEnd i # SetState s # evs)"

section \<open>Properties of \<open>trim\<close>\<close>

lemma dropWhile_space_append:
  "list_all is_space w \<Longrightarrow> dropWhile is_space (w @ r) = dropWhile is_space r"
  by (induction w) auto

lemma dropWhile_space_all: "list_all is_space w \<Longrightarrow> dropWhile is_space w = []"
  by (induction w) auto

lemma trim_Nil_iff: "trim s = [] \<longleftrightarrow> list_all is_space s"
proof
  assume "trim s = []"
  then have "\<forall>x\<in>set (dropWhile is_space s). is_space x"
    by (simp add: trim_def)
  then have "dropWhile is_space s = []"
    by (metis hd_dropWhile list.set_sel(1))
  then show "list_all is_space s"
    by (simp add: list_all_iff)
next
  assume "list_all is_space s"
  then show "trim s = []"
    by (simp add: trim_def dropWhile_space_all)
qed

lemma trim_hd: "trim s \<noteq> [] \<Longrightarrow> \<not> is_space (hd (trim s))"
proof -
  assume ne: "trim s \<noteq> []"
  let ?t = "dropWhile is_space s"
  let ?u = "dropWhile is_space (rev ?t)"
  from ne have u: "?u \<noteq> []" by (simp add: trim_def)
  then have t: "?t \<noteq> []" by fastforce
  have "rev ?t = takeWhile is_space (rev ?t) @ ?u" by simp
  then have "?t = rev ?u @ rev (takeWhile is_space (rev ?t))"
    by (metis rev_append rev_rev_ident)
  with u have "hd ?t = hd (rev ?u)" by (metis hd_append2 rev_is_Nil_conv)
  moreover from t have "\<not> is_space (hd ?t)" by (rule hd_dropWhile)
  ultimately show ?thesis by (simp add: trim_def)
qed

lemma trim_last: "trim s \<noteq> [] \<Longrightarrow> \<not> is_space (last (trim s))"
proof -
  assume ne: "trim s \<noteq> []"
  let ?u = "dropWhile is_space (rev (dropWhile is_space s))"
  from ne have u: "?u \<noteq> []" by (simp add: trim_def)
  then have "\<not> is_space (hd ?u)" by (rule hd_dropWhile)
  with u show ?thesis by (simp add: trim_def last_rev)
qed

lemma trim_id: "s \<noteq> [] \<Longrightarrow> \<not> is_space (hd s) \<Longrightarrow> \<not> is_space (last s) \<Longrightarrow> trim s = s"
proof -
  assume s: "s \<noteq> []" and h: "\<not> is_space (hd s)" and l: "\<not> is_space (last s)"
  from s h have 1: "dropWhile is_space s = s" by (cases s) auto
  from s l have "\<not> is_space (hd (rev s))" by (simp add: hd_rev)
  with s have "dropWhile is_space (rev s) = rev s" by (cases "rev s") auto
  with 1 show ?thesis by (simp add: trim_def)
qed

lemma trim_decomp:
  "\<exists>w1 w2. s = w1 @ trim s @ w2 \<and> list_all is_space w1 \<and> list_all is_space w2"
proof -
  let ?t = "dropWhile is_space s"
  let ?w1 = "takeWhile is_space s"
  let ?w2 = "rev (takeWhile is_space (rev ?t))"
  have "rev ?t = takeWhile is_space (rev ?t) @ dropWhile is_space (rev ?t)" by simp
  then have "?t = trim s @ ?w2"
    unfolding trim_def by (metis rev_append rev_rev_ident)
  then have "s = ?w1 @ trim s @ ?w2" by (metis takeWhile_dropWhile_id)
  moreover have "list_all is_space ?w1" by (simp add: list_all_iff) (meson set_takeWhileD)
  moreover have "list_all is_space ?w2" by (simp add: list_all_iff) (meson set_takeWhileD)
  ultimately show ?thesis by blast
qed

lemma trim_space_append: "list_all is_space w \<Longrightarrow> trim (w @ s) = trim s"
  by (simp add: trim_def dropWhile_space_append)

lemma dropWhile_space_append1:
  "\<not> list_all is_space s \<Longrightarrow> dropWhile is_space (s @ r) = dropWhile is_space s @ r"
  by (induction s) auto

lemma trim_append_space: "list_all is_space w \<Longrightarrow> trim (s @ w) = trim s"
proof (cases "list_all is_space s")
  case True
  assume "list_all is_space w"
  with True have "list_all is_space (s @ w)" by simp
  with True show ?thesis by (simp only: trim_Nil_iff [THEN iffD2])
next
  case False
  assume "list_all is_space w"
  then have "list_all is_space (rev w)" by (simp add: list_all_iff)
  then have "dropWhile is_space (rev w @ r) = dropWhile is_space r" for r
    by (rule dropWhile_space_append)
  with False show ?thesis
    by (simp add: trim_def dropWhile_space_append1)
qed

section \<open>Chunks of \<open>splitText\<close> are non-empty and trimmed\<close>

lemma splitText_not_Nil: "splitText input maxLen \<noteq> []"
  by (simp add: splitText_def Let_def)

lemma trimmed_trim: "trim s \<noteq> [] \<Longrightarrow> trimmed (trim s)"
  by (simp add: trimmed_def trim_hd trim_last)

lemma trim_trimmed: "trimmed s \<Longrightarrow> trim s = s"
  by (simp add: trimmed_def trim_id)

lemma split_parts_trimmed: "p \<in> set (split_parts seg s) \<Longrightarrow> trimmed p"
  by (induction seg s rule: split_parts.induct)
     (auto simp: Let_def trimmed_trim split: if_splits)

lemma sp_space: "is_space sp"
  by (simp add: is_space_def sp_def)

lemma trim_sp_cons: "trim (sp # p) = trim p"
  using trim_space_append [of "[sp]" p] by (simp add: sp_space)

lemma trimmed_join: "trimmed a \<Longrightarrow> trimmed b \<Longrightarrow> trimmed (a @ [sp] @ b)"
  by (simp add: trimmed_def)

lemma merge_parts_trimmed:
  "buf = [] \<or> trimmed buf \<Longrightarrow> \<forall>p\<in>set ps. trimmed p \<Longrightarrow> c \<in> set (merge_parts L buf ps) \<Longrightarrow> trimmed c"
proof (induction ps arbitrary: buf)
  case Nil
  then show ?case by (auto split: if_splits)
next
  case (Cons p ps)
  from Cons.prems have p: "trimmed p" by simp
  show ?case
  proof (cases "int (length (trim (buf @ [sp] @ p))) \<le> L")
    case True
    let ?b = "(if buf \<noteq> [] then buf @ [sp] else []) @ p"
    from Cons.prems(1) p have "trimmed ?b" using trimmed_join [of buf p] by auto
    moreover from True Cons.prems(3) have "c \<in> set (merge_parts L ?b ps)" by simp
    ultimately show ?thesis using Cons.IH [of ?b] Cons.prems(2) by simp
  next
    case False
    with Cons.prems(3) have "c = buf \<and> buf \<noteq> [] \<or> c \<in> set (merge_parts L p ps)"
      by (auto split: if_splits)
    then show ?thesis using Cons.IH [of p] Cons.prems p by auto
  qed
qed

lemma splitText_trimmed:
  assumes "trim input \<noteq> []" and "c \<in> set (splitText input L)"
  shows "trimmed c"
proof -
  let ?parts = "split_parts [] (trim input)"
  show ?thesis
  proof (cases "merge_parts L [] ?parts = []")
    case True
    with assms(2) have "c = trim input" by (simp add: splitText_def)
    with assms(1) show ?thesis by (simp add: trimmed_trim)
  next
    case False
    with assms(2) have "c \<in> set (merge_parts L [] ?parts)" by (simp add: splitText_def)
    then show ?thesis
      by (rule merge_parts_trimmed [rotated 2]) (auto simp: split_parts_trimmed)
  qed
qed

section \<open>Input without split points, and blank input\<close>

lemma trim_Nil: "trim [] = []"
  by (simp add: trim_def)

lemma split_parts_no_break:
  "\<forall>c\<in>set s. \<not> is_break c \<Longrightarrow>
     split_parts seg s = (if trim (seg @ s) \<noteq> [] then [trim (seg @ s)] else [])"
  by (induction s arbitrary: seg) (auto simp: is_break_def Let_def)

lemma trim_no_break:
  assumes "\<forall>c\<in>set s. \<not> is_break c"
  shows "\<forall>c\<in>set (trim s). \<not> is_break c"
proof -
  obtain w1 w2 where "s = w1 @ trim s @ w2" using trim_decomp by blast
  then have "set (trim s) \<subseteq> set s" by (metis Un_upper1 Un_upper2 set_append subset_trans)
  with assms show ?thesis by blast
qed

text \<open>
  C7: an input without sentence terminator and without line feed comes back as
  exactly one chunk, the trimmed input.
\<close>

theorem splitText_no_terminator:
  assumes "\<forall>c\<in>set input. \<not> is_term c \<and> \<not> is_nl c"
  shows "splitText input maxLen = [trim input]"
proof -
  from assms have "\<forall>c\<in>set input. \<not> is_break c" by (simp add: is_break_def)
  then have "\<forall>c\<in>set (trim input). \<not> is_break c" by (rule trim_no_break)
  then have parts: "split_parts [] (trim input) =
      (if trim (trim input) \<noteq> [] then [trim (trim input)] else [])"
    using split_parts_no_break [of "trim input" "[]"] by simp
  show ?thesis
  proof (cases "trim input = []")
    case True
    then show ?thesis by (simp add: splitText_def trim_Nil)
  next
    case False
    then have "trim (trim input) = trim input" by (simp add: trim_trimmed trimmed_trim)
    with False parts have "split_parts [] (trim input) = [trim input]" by simp
    with False show ?thesis by (simp add: splitText_def Let_def)
  qed
qed

theorem splitText_no_terminator_witness:
  "list_all (\<lambda>c. \<not> is_term c \<and> \<not> is_nl c) (js '' hi hi '')
   \<and> trim (js '' hi hi '') = js ''hi hi''
   \<and> splitText (js '' hi hi '') 3 = [js ''hi hi'']"
proof -
  have h: "\<forall>c\<in>set (js '' hi hi ''). \<not> is_term c \<and> \<not> is_nl c"
    by (simp add: js_def is_term_def is_nl_def)
  have t: "trim (js '' hi hi '') = js ''hi hi''"
    by (simp add: js_def trim_def is_space_def)
  from splitText_no_terminator [OF h, of 3] t h show ?thesis
    by (simp add: list_all_iff)
qed

text \<open>
  C2 as stated fails: for blank input the result is not the empty array.
\<close>

theorem splitText_blank_counterexample:
  "list_all is_space (js ''  '') \<and> splitText (js ''  '') 1800 \<noteq> [] \<and> splitText [] 1800 \<noteq> []"
  by (simp add: splitText_def js_def trim_def is_space_def)

text \<open>
  C2, amended: for an input that is empty or all whitespace, \<open>splitText\<close> returns exactly
  one chunk, the empty string (the fallback \<open>[remaining]\<close>).
\<close>

theorem splitText_blank:
  assumes "list_all is_space input"
  shows "splitText input maxLen = [[]]"
proof -
  from assms have "trim input = []" by (simp add: trim_Nil_iff)
  then show ?thesis by (simp add: splitText_def trim_Nil)
qed

theorem splitText_blank_witness:
  "list_all is_space (js ''  '') \<and> splitText (js ''  '') 1800 = [[]]"
proof -
  have h: "list_all is_space (js ''  '')" by (simp add: js_def is_space_def)
  from h splitText_blank [OF h, of 1800] show ?thesis by simp
qed

section \<open>Chunk length\<close>

lemma trim_join:
  assumes "buf = [] \<or> trimmed buf" and "trimmed p"
  shows "trim (buf @ [sp] @ p) = (if buf \<noteq> [] then buf @ [sp] else []) @ p"
proof (cases "buf = []")
  case True
  with assms(2) show ?thesis by (simp add: trim_sp_cons trim_trimmed)
next
  case False
  with assms have "trimmed (buf @ [sp] @ p)" using trimmed_join [of buf p] by blast
  with False show ?thesis using trim_trimmed [of "buf @ [sp] @ p"] by simp
qed

lemma merge_parts_bound:
  assumes "buf = [] \<or> (trimmed buf \<and> (int (length buf) \<le> L \<or> buf \<in> P))"
    and "\<forall>p\<in>set ps. trimmed p \<and> p \<in> P"
    and "c \<in> set (merge_parts L buf ps)"
  shows "int (length c) \<le> L \<or> c \<in> P"
  using assms
proof (induction ps arbitrary: buf)
  case Nil
  then show ?case by (auto split: if_splits)
next
  case (Cons p ps)
  from Cons.prems(2) have p: "trimmed p" "p \<in> P" by simp_all
  from Cons.prems(1) have b: "buf = [] \<or> trimmed buf" by blast
  let ?b = "(if buf \<noteq> [] then buf @ [sp] else []) @ p"
  have tj: "trim (buf @ [sp] @ p) = ?b" using b p(1) by (rule trim_join)
  show ?case
  proof (cases "int (length ?b) \<le> L")
    case True
    with tj Cons.prems(3) have c: "c \<in> set (merge_parts L ?b ps)" by simp
    have "trimmed ?b" using b p(1) trimmed_join [of buf p] by auto
    with True have "?b = [] \<or> (trimmed ?b \<and> (int (length ?b) \<le> L \<or> ?b \<in> P))" by blast
    from Cons.IH [OF this _ c] Cons.prems(2) show ?thesis by simp
  next
    case False
    with tj Cons.prems(3) have "c = buf \<and> buf \<noteq> [] \<or> c \<in> set (merge_parts L p ps)"
      by (auto split: if_splits)
    then show ?thesis
    proof
      assume "c = buf \<and> buf \<noteq> []"
      with Cons.prems(1) show ?thesis by blast
    next
      assume c: "c \<in> set (merge_parts L p ps)"
      from p have "p = [] \<or> (trimmed p \<and> (int (length p) \<le> L \<or> p \<in> P))" by blast
      from Cons.IH [OF this _ c] Cons.prems(2) show ?thesis by simp
    qed
  qed
qed

section \<open>Parts have no inner split point\<close>

lemma unsplittable_drop_prefix: "unsplittable (a @ b) \<Longrightarrow> unsplittable b"
proof (induction a)
  case Nil
  then show ?case by simp
next
  case (Cons x a)
  show ?case
  proof (cases "is_break x")
    case True
    with Cons.prems have "list_all is_term b" by (simp add: unsplittable_def)
    then have "list_all is_term (dropWhile (\<lambda>x. \<not> is_break x) b)"
      by (metis append_take_drop_id dropWhile_eq_drop list_all_append)
    then show ?thesis by (simp add: unsplittable_def)
  next
    case False
    with Cons show ?thesis by (simp add: unsplittable_def)
  qed
qed

lemma unsplittable_drop_suffix: "unsplittable (a @ b) \<Longrightarrow> unsplittable a"
  by (induction a) (auto simp: unsplittable_def split: if_splits)

lemma unsplittable_trim: "unsplittable s \<Longrightarrow> unsplittable (trim s)"
proof -
  assume u: "unsplittable s"
  obtain w1 w2 where "s = w1 @ trim s @ w2" using trim_decomp by blast
  with u have "unsplittable (w1 @ trim s @ w2)" by simp
  then have "unsplittable (trim s @ w2)" by (rule unsplittable_drop_prefix)
  then show ?thesis by (rule unsplittable_drop_suffix)
qed

lemma unsplittable_run:
  assumes "\<forall>x\<in>set seg. \<not> is_break x" and "list_all is_term t"
  shows "unsplittable (seg @ t)"
proof (cases t)
  case Nil
  from assms(1) have "unsplittable seg"
    by (induction seg) (auto simp: unsplittable_def)
  with Nil show ?thesis by simp
next
  case (Cons c t')
  with assms(2) have "is_break c" by (simp add: is_break_def)
  with assms(1) have "dropWhile (\<lambda>x. \<not> is_break x) (seg @ c # t') = c # t'"
    by (induction seg) auto
  with Cons assms(2) show ?thesis by (simp add: unsplittable_def)
qed

lemma nl_space: "is_nl c \<Longrightarrow> is_space c"
  by (simp add: is_nl_def is_space_def)

lemma takeWhile_all: "list_all P (takeWhile P xs)"
  by (induction xs) auto

lemma split_parts_unsplittable:
  "\<forall>x\<in>set seg. \<not> is_break x \<Longrightarrow> p \<in> set (split_parts seg s) \<Longrightarrow> unsplittable p"
proof (induction seg s rule: split_parts.induct)
  case (1 seg)
  from "1.prems"(1) have "unsplittable (seg @ [])" by (intro unsplittable_run) simp_all
  then have "unsplittable (trim seg)" using unsplittable_trim by simp
  with "1.prems"(2) show ?case by (auto simp: Let_def split: if_splits)
next
  case (2 seg c cs)
  show ?case
  proof (cases "is_term c")
    case True
    let ?X = "seg @ c # takeWhile is_term cs"
    from True have "list_all is_term (c # takeWhile is_term cs)" by (simp add: takeWhile_all)
    with "2.prems"(1) have "unsplittable ?X" by (rule unsplittable_run)
    then have "unsplittable (trim ?X)" by (rule unsplittable_trim)
    moreover from True "2.prems"(2)
    have "p = trim ?X \<or> p \<in> set (split_parts [] (dropWhile is_term cs))"
      by (auto simp: Let_def split: if_splits)
    ultimately show ?thesis using "2.IH"(1) [OF True] by auto
  next
    case False
    show ?thesis
    proof (cases "is_nl c")
      case True
      let ?X = "seg @ c # takeWhile is_nl cs"
      have "list_all is_nl (c # takeWhile is_nl cs)" using True by (simp add: takeWhile_all)
      then have "list_all is_space (c # takeWhile is_nl cs)"
        by (metis (mono_tags, lifting) list_all_iff nl_space)
      then have "trim ?X = trim seg" by (rule trim_append_space)
      moreover from "2.prems"(1) have "unsplittable (seg @ [])" by (intro unsplittable_run) simp_all
      then have "unsplittable (trim seg)" using unsplittable_trim by simp
      ultimately have "unsplittable (trim ?X)" by simp
      moreover from False True "2.prems"(2)
      have "p = trim ?X \<or> p \<in> set (split_parts [] (dropWhile is_nl cs))"
        by (auto simp: Let_def split: if_splits)
      ultimately show ?thesis using "2.IH"(2) [OF False True] by auto
    next
      case nonl: False
      from False nonl have "\<not> is_break c" by (simp add: is_break_def)
      with "2.prems"(1) have "\<forall>x\<in>set (seg @ [c]). \<not> is_break x" by simp
      moreover from False nonl "2.prems"(2) have "p \<in> set (split_parts (seg @ [c]) cs)" by simp
      ultimately show ?thesis using "2.IH"(3) [OF False nonl] by blast
    qed
  qed
qed

section \<open>The parts cover the input\<close>

lemma gapped_space_prefix: "list_all is_space w \<Longrightarrow> gapped ps (w @ r) = gapped ps r"
  by (cases ps) (simp_all add: dropWhile_space_append)

lemma gapped_space_suffix: "list_all is_space w \<Longrightarrow> gapped ps r \<Longrightarrow> gapped ps (r @ w)"
proof (induction ps arbitrary: r)
  case Nil
  then show ?case by simp
next
  case (Cons p ps)
  show ?case
  proof (cases "list_all is_space r")
    case True
    with Cons.prems(1) have "list_all is_space (r @ w)" by simp
    then have a: "dropWhile is_space (r @ w) = []" by (rule dropWhile_space_all)
    from True have b: "dropWhile is_space r = []" by (rule dropWhile_space_all)
    from Cons.prems(2) show ?thesis unfolding gapped.simps a b .
  next
    case False
    let ?r = "dropWhile is_space r"
    from False have d: "dropWhile is_space (r @ w) = ?r @ w"
      by (rule dropWhile_space_append1)
    from Cons.prems(2) have t: "take (length p) ?r = p" and g: "gapped ps (drop (length p) ?r)"
      by (simp_all add: Let_def)
    have "length (take (length p) ?r) \<le> length ?r" by simp
    with t have "length p \<le> length ?r" by simp
    with t g d Cons.IH [OF Cons.prems(1) g] show ?thesis by simp
  qed
qed

lemma gapped_cons_trim:
  assumes "trim X \<noteq> []" and "gapped ps r"
  shows "gapped (trim X # ps) (X @ r)"
proof -
  obtain w1 w2 where X: "X = w1 @ trim X @ w2" and w1: "list_all is_space w1"
    and w2: "list_all is_space w2"
    using trim_decomp by blast
  from assms(1) have "\<not> is_space (hd (trim X))" by (rule trim_hd)
  with assms(1) have "dropWhile is_space (trim X @ w2 @ r) = trim X @ w2 @ r"
    by (cases "trim X") auto
  with w1 have "dropWhile is_space (w1 @ trim X @ w2 @ r) = trim X @ w2 @ r"
    by (simp add: dropWhile_space_append)
  moreover have "X @ r = w1 @ trim X @ w2 @ r" using X by (metis append.assoc)
  ultimately have "dropWhile is_space (X @ r) = trim X @ w2 @ r" by (simp only:)
  moreover from w2 assms(2) have "gapped ps (w2 @ r)" by (simp add: gapped_space_prefix)
  ultimately show ?thesis by simp
qed

lemma gapped_skip_blank:
  assumes "trim X = []" and "gapped ps r"
  shows "gapped ps (X @ r)"
  using assms by (simp add: trim_Nil_iff gapped_space_prefix)

lemma gapped_opt_trim:
  "gapped ps r \<Longrightarrow> gapped ((if trim X \<noteq> [] then [trim X] else []) @ ps) (X @ r)"
  by (simp add: gapped_cons_trim gapped_skip_blank del: gapped.simps)

lemma gapped_split_parts: "gapped (split_parts seg s) (seg @ s)"
proof (induction seg s rule: split_parts.induct)
  case (1 seg)
  have "gapped [] []" by simp
  from gapped_opt_trim [OF this, of seg] show ?case by (simp add: Let_def)
next
  case (2 seg c cs)
  show ?case
  proof (cases "is_term c")
    case True
    let ?X = "seg @ c # takeWhile is_term cs"
    let ?r = "dropWhile is_term cs"
    from "2.IH"(1) [OF True] have "gapped (split_parts [] ?r) ?r" by simp
    from gapped_opt_trim [OF this, of ?X] True show ?thesis by (simp add: Let_def)
  next
    case False
    show ?thesis
    proof (cases "is_nl c")
      case True
      let ?X = "seg @ c # takeWhile is_nl cs"
      let ?r = "dropWhile is_nl cs"
      from "2.IH"(2) [OF False True] have "gapped (split_parts [] ?r) ?r" by simp
      from gapped_opt_trim [OF this, of ?X] False True show ?thesis by (simp add: Let_def)
    next
      case nonl: False
      from "2.IH"(3) [OF False nonl] False nonl show ?thesis by simp
    qed
  qed
qed

lemma gapped_filter:
  "gapped ps s \<Longrightarrow> filter (\<lambda>c. \<not> is_space c) s = filter (\<lambda>c. \<not> is_space c) (concat ps)"
proof (induction ps arbitrary: s)
  case Nil
  then show ?case by (simp add: list_all_iff)
next
  case (Cons p ps)
  let ?r = "dropWhile is_space s"
  from Cons.prems have t: "take (length p) ?r = p" and g: "gapped ps (drop (length p) ?r)"
    by (simp_all add: Let_def)
  have "filter (\<lambda>c. \<not> is_space c) (takeWhile is_space s) = []"
    by (simp add: filter_empty_conv) (meson set_takeWhileD)
  moreover have "s = takeWhile is_space s @ ?r" by simp
  ultimately have "filter (\<lambda>c. \<not> is_space c) s = filter (\<lambda>c. \<not> is_space c) ?r"
    by (metis filter_append self_append_conv2)
  also have "?r = p @ drop (length p) ?r" using t by (metis append_take_drop_id)
  finally show ?case using Cons.IH [OF g] by simp
qed

section \<open>The chunks are groups of consecutive parts\<close>

lemma join_sp_snoc: "bs \<noteq> [] \<Longrightarrow> join_sp (bs @ [p]) = join_sp bs @ [sp] @ p"
  by (induction bs rule: join_sp.induct) auto

lemma join_sp_Nil_iff: "[] \<notin> set bs \<Longrightarrow> join_sp bs = [] \<longleftrightarrow> bs = []"
  by (induction bs rule: join_sp.induct) auto

lemma join_sp_filter:
  "filter (\<lambda>c. \<not> is_space c) (join_sp g) = filter (\<lambda>c. \<not> is_space c) (concat g)"
  by (induction g rule: join_sp.induct) (auto simp: sp_space)

lemma merge_parts_groups:
  assumes "[] \<notin> set bs" and "[] \<notin> set ps"
  shows "\<exists>gs. merge_parts L (join_sp bs) ps = map join_sp gs \<and> [] \<notin> set gs \<and> concat gs = bs @ ps"
  using assms
proof (induction ps arbitrary: bs)
  case Nil
  show ?case
  proof (cases "bs = []")
    case True
    then show ?thesis by simp
  next
    case False
    with Nil have "join_sp bs \<noteq> []" by (simp add: join_sp_Nil_iff)
    then have "merge_parts L (join_sp bs) [] = map join_sp [bs]" by simp
    with False show ?thesis by (metis append_Nil2 concat.simps list.set empty_iff insert_iff)
  qed
next
  case (Cons p ps)
  from Cons.prems have p: "p \<noteq> []" and ps: "[] \<notin> set ps" by auto
  have nb: "join_sp bs \<noteq> [] \<longleftrightarrow> bs \<noteq> []" using Cons.prems(1) by (simp add: join_sp_Nil_iff)
  have snoc: "(if join_sp bs \<noteq> [] then join_sp bs @ [sp] else []) @ p = join_sp (bs @ [p])"
    using nb by (cases "bs = []") (simp_all add: join_sp_snoc)
  show ?case
  proof (cases "int (length (trim (join_sp bs @ [sp] @ p))) \<le> L")
    case True
    from Cons.prems(1) p have "[] \<notin> set (bs @ [p])" by auto
    from Cons.IH [OF this ps] obtain gs where
      "merge_parts L (join_sp (bs @ [p])) ps = map join_sp gs" "[] \<notin> set gs"
      "concat gs = (bs @ [p]) @ ps" by blast
    with True snoc show ?thesis by auto
  next
    case False
    from p have "[] \<notin> set [p]" by auto
    from Cons.IH [OF this ps] obtain gs where
      gs: "merge_parts L (join_sp [p]) ps = map join_sp gs" "[] \<notin> set gs"
      "concat gs = [p] @ ps" by blast
    let ?gs = "(if bs \<noteq> [] then [bs] else []) @ gs"
    from False gs(1) nb have "merge_parts L (join_sp bs) (p # ps) = map join_sp ?gs" by simp
    moreover from gs(2) have "[] \<notin> set ?gs" by simp
    moreover from gs(3) have "concat ?gs = bs @ p # ps" by simp
    ultimately show ?thesis by blast
  qed
qed

section \<open>Bounded chunks that cover the input\<close>

lemma concat_join_filter:
  "filter (\<lambda>c. \<not> is_space c) (concat (map join_sp gs)) =
   filter (\<lambda>c. \<not> is_space c) (concat (concat gs))"
  by (induction gs) (simp_all add: join_sp_filter)

lemma gapped_trim: "gapped ps (trim s) \<Longrightarrow> gapped ps s"
proof -
  assume g: "gapped ps (trim s)"
  obtain w1 w2 where s: "s = w1 @ trim s @ w2" and w1: "list_all is_space w1"
    and w2: "list_all is_space w2"
    using trim_decomp by blast
  from w2 g have "gapped ps (trim s @ w2)" by (rule gapped_space_suffix)
  with w1 have "gapped ps (w1 @ trim s @ w2)" by (simp only: gapped_space_prefix)
  with s show ?thesis by simp
qed

lemma splitText_merged:
  assumes "trim input \<noteq> []"
  shows "split_parts [] (trim input) \<noteq> []"
    and "splitText input L = merge_parts L [] (split_parts [] (trim input))"
proof -
  let ?parts = "split_parts [] (trim input)"
  have g: "gapped ?parts (trim input)" using gapped_split_parts [of "[]" "trim input"] by simp
  show ne: "?parts \<noteq> []"
  proof
    assume "?parts = []"
    with g have "list_all is_space (trim input)" by simp
    then have "trim (trim input) = []" by (simp add: trim_Nil_iff)
    with assms show False by (simp add: trim_trimmed trimmed_trim)
  qed
  have "[] \<notin> set ?parts" using split_parts_trimmed [of "[]" "[]" "trim input"]
    by (auto simp: trimmed_def)
  from merge_parts_groups [of "[]" ?parts L, simplified, OF this] obtain gs where
    "merge_parts L [] ?parts = map join_sp gs" "concat gs = ?parts" by auto
  with ne have "merge_parts L [] ?parts \<noteq> []" by auto
  then show "splitText input L = merge_parts L [] ?parts" by (simp add: splitText_def)
qed

text \<open>
  C1: when the trimmed input is not empty, every chunk of \<open>splitText input L\<close> has at most
  \<open>L\<close> characters, unless it is one single part of the split (a stretch without
  terminator or line feed inside) that is longer than \<open>L\<close>. The chunks are groups of
  consecutive parts joined by one space, the parts taken together are the input with
  nothing but whitespace left out between them, and so the chunks and the input agree
  character by character once whitespace is ignored.
\<close>

theorem splitText_bounded_and_covering:
  assumes "trim input \<noteq> []"
  shows "(\<forall>c\<in>set (splitText input L).
            int (length c) \<le> L \<or>
            (L < int (length c) \<and> c \<in> set (split_parts [] (trim input)) \<and> unsplittable c))
       \<and> (\<exists>gs. splitText input L = map join_sp gs \<and> [] \<notin> set gs \<and> gapped (concat gs) input)
       \<and> filter (\<lambda>c. \<not> is_space c) (concat (splitText input L)) =
           filter (\<lambda>c. \<not> is_space c) input"
proof -
  let ?parts = "split_parts [] (trim input)"
  have st: "splitText input L = merge_parts L [] ?parts"
    using assms by (rule splitText_merged(2))
  have tr: "\<forall>p\<in>set ?parts. trimmed p \<and> p \<in> set ?parts"
    using split_parts_trimmed by blast
  have bound: "int (length c) \<le> L \<or>
      (L < int (length c) \<and> c \<in> set ?parts \<and> unsplittable c)"
    if c: "c \<in> set (splitText input L)" for c
  proof -
    from c st have "c \<in> set (merge_parts L [] ?parts)" by simp
    from merge_parts_bound [OF _ tr this] have "int (length c) \<le> L \<or> c \<in> set ?parts" by simp
    moreover have "unsplittable c" if "c \<in> set ?parts"
      using that split_parts_unsplittable [of "[]" c "trim input"] by simp
    ultimately show ?thesis by auto
  qed
  have "[] \<notin> set ?parts" using tr by (auto simp: trimmed_def)
  from merge_parts_groups [of "[]" ?parts L, simplified, OF this] obtain gs where
    gs: "merge_parts L [] ?parts = map join_sp gs" "[] \<notin> set gs" "concat gs = ?parts" by auto
  have "gapped ?parts (trim input)" using gapped_split_parts [of "[]" "trim input"] by simp
  then have g: "gapped (concat gs) input" using gs(3) by (simp add: gapped_trim)
  have "filter (\<lambda>c. \<not> is_space c) (concat (splitText input L)) =
        filter (\<lambda>c. \<not> is_space c) (concat (concat gs))"
    using st gs(1) by (simp add: concat_join_filter)
  also have "\<dots> = filter (\<lambda>c. \<not> is_space c) input"
    using gapped_filter [OF g] by simp
  finally have f: "filter (\<lambda>c. \<not> is_space c) (concat (splitText input L)) =
        filter (\<lambda>c. \<not> is_space c) input" .
  from st gs(1,2) g have "\<exists>gs. splitText input L = map join_sp gs \<and> [] \<notin> set gs \<and>
      gapped (concat gs) input" by auto
  with bound f show ?thesis by blast
qed

theorem splitText_bounded_and_covering_witness:
  "trim (js '' Hi. Yo!  Abcdefgh.Ok '') \<noteq> []
   \<and> splitText (js '' Hi. Yo!  Abcdefgh.Ok '') 7 = [js ''Hi. Yo!'', js ''Abcdefgh.'', js ''Ok'']
   \<and> split_parts [] (trim (js '' Hi. Yo!  Abcdefgh.Ok '')) = [js ''Hi.'', js ''Yo!'', js ''Abcdefgh.'', js ''Ok'']
   \<and> unsplittable (js ''Abcdefgh.'')
   \<and> filter (\<lambda>c. \<not> is_space c) (concat (splitText (js '' Hi. Yo!  Abcdefgh.Ok '') 7)) =
       js ''Hi.Yo!Abcdefgh.Ok''"
proof -
  let ?input = "js '' Hi. Yo!  Abcdefgh.Ok ''"
  have h: "trim ?input \<noteq> []"
    by (simp add: js_def trim_def is_space_def)
  have e: "splitText ?input 7 = [js ''Hi. Yo!'', js ''Abcdefgh.'', js ''Ok'']"
    by (simp add: splitText_def js_def trim_def is_space_def is_term_def is_nl_def sp_def)
  have p: "split_parts [] (trim ?input) = [js ''Hi.'', js ''Yo!'', js ''Abcdefgh.'', js ''Ok'']"
    by (simp add: js_def trim_def is_space_def is_term_def is_nl_def)
  have f: "filter (\<lambda>c. \<not> is_space c) ?input = js ''Hi.Yo!Abcdefgh.Ok''"
    by (simp add: js_def is_space_def)
  note t = splitText_bounded_and_covering [OF h, of 7]
  from t e have "int (length (js ''Abcdefgh.'')) \<le> 7 \<or> unsplittable (js ''Abcdefgh.'')"
    by auto
  then have u: "unsplittable (js ''Abcdefgh.'')" by (simp add: js_def)
  from t f have "filter (\<lambda>c. \<not> is_space c) (concat (splitText ?input 7)) = js ''Hi.Yo!Abcdefgh.Ok''"
    by simp
  with h e p u show ?thesis by simp
qed

section \<open>The words of the normalized text\<close>

lemma collapse_ws_hd: "s \<noteq> [] \<Longrightarrow> \<not> is_space (hd s) \<Longrightarrow> hd (collapse_ws s) = hd s"
  by (cases s) auto

lemma collapse_ws_Nil_iff: "collapse_ws s = [] \<longleftrightarrow> s = []"
  by (cases s) auto

lemma collapse_ws_no_double: "no_double_sp (collapse_ws s)"
proof (induction s rule: collapse_ws.induct)
  case 1
  then show ?case by simp
next
  case (2 c cs)
  show ?case
  proof (cases "is_space c")
    case True
    let ?r = "dropWhile is_space cs"
    have "no_double_sp (sp # collapse_ws ?r)"
    proof (cases "collapse_ws ?r")
      case Nil
      then show ?thesis by simp
    next
      case (Cons d ds)
      then have "collapse_ws ?r \<noteq> []" by simp
      then have r: "?r \<noteq> []" unfolding collapse_ws_Nil_iff .
      then have ns: "\<not> is_space (hd ?r)" by (rule hd_dropWhile)
      with r have "hd (collapse_ws ?r) = hd ?r" by (rule collapse_ws_hd)
      with Cons ns have "d \<noteq> sp" using sp_space by auto
      with Cons "2.IH"(1) [OF True] show ?thesis by simp
    qed
    with True show ?thesis by simp
  next
    case False
    then have "c \<noteq> sp" using sp_space by auto
    with False "2.IH"(2) [OF False] show ?thesis by (cases "collapse_ws cs") simp_all
  qed
qed

lemma collapse_ws_space: "c \<in> set (collapse_ws s) \<Longrightarrow> is_space c \<Longrightarrow> c = sp"
proof (induction s rule: collapse_ws.induct)
  case 1
  then show ?case by simp
next
  case (2 d ds)
  then show ?case by (cases "is_space d") auto
qed

lemma no_double_sp_tl: "no_double_sp (x # xs) \<Longrightarrow> no_double_sp xs"
  by (cases xs) simp_all

lemma no_double_sp_append: "no_double_sp (a @ b) \<Longrightarrow> no_double_sp a \<and> no_double_sp b"
proof (induction a)
  case Nil
  then show ?case by simp
next
  case (Cons x a)
  from Cons.prems have "no_double_sp (a @ b)" using no_double_sp_tl by simp
  with Cons.IH have ih: "no_double_sp a" "no_double_sp b" by simp_all
  from Cons.prems ih(1) have "no_double_sp (x # a)" by (cases a) simp_all
  with ih(2) show ?case by simp
qed

lemma split_from_not_Nil: "split_from cur s \<noteq> []"
  by (induction s arbitrary: cur) auto

lemma split_from_no_empty:
  assumes "no_double_sp s" and "s = [] \<or> last s \<noteq> sp" and "cur \<noteq> [] \<or> (s \<noteq> [] \<and> hd s \<noteq> sp)"
  shows "[] \<notin> set (split_from cur s)"
  using assms
proof (induction s arbitrary: cur)
  case Nil
  then show ?case by simp
next
  case (Cons c cs)
  show ?case
  proof (cases "c = sp")
    case True
    with Cons.prems(3) have cur: "cur \<noteq> []" by simp
    from True Cons.prems(2) have cs: "cs \<noteq> []" by auto
    with True Cons.prems(1) have "hd cs \<noteq> sp" "no_double_sp cs" by (cases cs; simp)+
    moreover from cs Cons.prems(2) have "last cs \<noteq> sp" by simp
    ultimately have "[] \<notin> set (split_from [] cs)" using cs Cons.IH [of "[]"] by simp
    with True cur show ?thesis by auto
  next
    case False
    from Cons.prems(1) have "no_double_sp cs" by (cases cs) simp_all
    moreover from Cons.prems(2) have "cs = [] \<or> last cs \<noteq> sp" by (auto split: if_splits)
    ultimately have "[] \<notin> set (split_from (cur @ [c]) cs)" using Cons.IH [of "cur @ [c]"] by simp
    with False show ?thesis by simp
  qed
qed

lemma split_from_chars:
  "w \<in> set (split_from cur s) \<Longrightarrow> c \<in> set w \<Longrightarrow> c \<in> set cur \<or> (c \<in> set s \<and> c \<noteq> sp)"
proof (induction s arbitrary: cur)
  case Nil
  then show ?case by simp
next
  case (Cons a s)
  show ?case
  proof (cases "a = sp")
    case True
    with Cons.prems(1) have "w = cur \<or> w \<in> set (split_from [] s)" by simp
    then show ?thesis
    proof
      assume "w = cur"
      with Cons.prems(2) show ?thesis by simp
    next
      assume "w \<in> set (split_from [] s)"
      from Cons.IH [OF this Cons.prems(2)] show ?thesis by simp
    qed
  next
    case False
    with Cons.prems(1) have "w \<in> set (split_from (cur @ [a]) s)" by simp
    from Cons.IH [OF this Cons.prems(2)] False show ?thesis by auto
  qed
qed

lemma trim_subset: "set (trim s) \<subseteq> set s"
proof -
  obtain w1 w2 where "s = w1 @ trim s @ w2" using trim_decomp by blast
  then show ?thesis by (metis Un_upper1 Un_upper2 set_append subset_trans)
qed

lemma words_no_space:
  assumes "w \<in> set (split_sp (trim (collapse_ws txt)))" and "c \<in> set w"
  shows "\<not> is_space c"
proof
  assume sp: "is_space c"
  from assms have c: "c \<in> set (trim (collapse_ws txt))" "c \<noteq> sp"
    using split_from_chars [of w "[]" "trim (collapse_ws txt)" c] by (auto simp: split_sp_def)
  then have "c \<in> set (collapse_ws txt)" using trim_subset by blast
  then have "c = sp" using sp by (rule collapse_ws_space)
  with c(2) show False by simp
qed

lemma words_no_empty:
  assumes "trim (collapse_ws txt) \<noteq> []"
  shows "[] \<notin> set (split_sp (trim (collapse_ws txt)))"
proof -
  let ?N = "trim (collapse_ws txt)"
  obtain w1 w2 where "collapse_ws txt = w1 @ ?N @ w2" using trim_decomp by blast
  then have "no_double_sp (w1 @ ?N @ w2)" using collapse_ws_no_double [of "txt"] by simp
  then have nd: "no_double_sp ?N" using no_double_sp_append by blast
  from assms have "\<not> is_space (hd ?N)" "\<not> is_space (last ?N)"
    by (simp_all add: trim_hd trim_last)
  then have "hd ?N \<noteq> sp" "last ?N \<noteq> sp" using sp_space by auto
  with nd assms show ?thesis
    unfolding split_sp_def by (intro split_from_no_empty) simp_all
qed

lemma join_split_from: "join_sp (split_from cur s) = cur @ s"
proof (induction s arbitrary: cur)
  case Nil
  then show ?case by simp
next
  case (Cons c cs)
  show ?case
  proof (cases "c = sp")
    case True
    obtain x xs where "split_from [] cs = x # xs"
      using split_from_not_Nil [of "[]" cs] by (cases "split_from [] cs") auto
    with True Cons.IH [of "[]"] show ?thesis by simp
  next
    case False
    with Cons.IH [of "cur @ [c]"] show ?thesis by simp
  qed
qed

lemma join_split_sp: "join_sp (split_sp s) = s"
  by (simp add: split_sp_def join_split_from)

section \<open>Lines of \<open>wrapText\<close>\<close>

lemma wrap_words_width:
  assumes "line = [] \<or> measureText line \<le> maxWidth \<or> line \<in> W"
    and "\<forall>w\<in>set ws. w \<in> W"
    and "l \<in> set (wrap_words measureText maxWidth line ws)"
  shows "measureText l \<le> maxWidth \<or> l \<in> W"
  using assms
proof (induction ws arbitrary: line)
  case Nil
  then show ?case by (auto split: if_splits)
next
  case (Cons w ws)
  let ?test = "(if line \<noteq> [] then line @ [sp] else []) @ w"
  from Cons.prems(2) have w: "w \<in> W" and ws: "\<forall>w\<in>set ws. w \<in> W" by simp_all
  show ?case
  proof (cases "measureText ?test > maxWidth")
    case True
    with Cons.prems(3) have "l = line \<and> line \<noteq> [] \<or> l \<in> set (wrap_words measureText maxWidth w ws)"
      by (auto simp: Let_def split: if_splits)
    then show ?thesis
    proof
      assume "l = line \<and> line \<noteq> []"
      with Cons.prems(1) show ?thesis by blast
    next
      assume "l \<in> set (wrap_words measureText maxWidth w ws)"
      with Cons.IH [of w] w ws show ?thesis by blast
    qed
  next
    case False
    then have fit: "measureText ?test \<le> maxWidth" by simp
    from False Cons.prems(3) have "l \<in> set (wrap_words measureText maxWidth ?test ws)"
      by (simp add: Let_def)
    with Cons.IH [of ?test] fit ws show ?thesis by blast
  qed
qed

text \<open>
  C3: no line of \<open>wrapText\<close> is wider than the maximum width, except a line that is one
  single word of the text (free of whitespace) which by itself is wider than the
  maximum; that word is a line of its own.
\<close>

theorem wrapText_width:
  "\<forall>l\<in>set (wrapText measureText txt maxWidth).
      measureText l \<le> maxWidth \<or>
      (maxWidth < measureText l \<and> l \<in> set (split_sp (trim (collapse_ws txt)))
         \<and> list_all (\<lambda>c. \<not> is_space c) l)"
proof
  fix l
  assume l: "l \<in> set (wrapText measureText txt maxWidth)"
  let ?words = "split_sp (trim (collapse_ws txt))"
  from l have "l \<in> set (wrap_words measureText maxWidth [] ?words)"
    by (simp add: wrapText_def)
  from wrap_words_width [OF _ _ this, of "set ?words"]
  have "measureText l \<le> maxWidth \<or> l \<in> set ?words" by simp
  moreover have "list_all (\<lambda>c. \<not> is_space c) l" if "l \<in> set ?words"
    using that words_no_space [of l "txt"] by (simp add: list_all_iff)
  ultimately show "measureText l \<le> maxWidth \<or>
      (maxWidth < measureText l \<and> l \<in> set ?words \<and> list_all (\<lambda>c. \<not> is_space c) l)"
    by auto
qed

theorem wrapText_width_witness:
  "wrapText length (js '' a bc  defghi jk '') 4 = [js ''a bc'', js ''defghi'', js ''jk'']
   \<and> split_sp (trim (collapse_ws (js '' a bc  defghi jk ''))) = [js ''a'', js ''bc'', js ''defghi'', js ''jk'']
   \<and> length (js ''a bc'') \<le> 4 \<and> 4 < length (js ''defghi'')
   \<and> js ''defghi'' \<in> set (split_sp (trim (collapse_ws (js '' a bc  defghi jk ''))))
   \<and> length (js ''jk'') \<le> 4"
proof -
  let ?t = "js '' a bc  defghi jk ''"
  have e: "wrapText length ?t 4 = [js ''a bc'', js ''defghi'', js ''jk'']"
    by (simp add: wrapText_def split_sp_def js_def trim_def is_space_def sp_def)
  have w: "split_sp (trim (collapse_ws ?t)) = [js ''a'', js ''bc'', js ''defghi'', js ''jk'']"
    by (simp add: split_sp_def js_def trim_def is_space_def sp_def)
  from wrapText_width [of length ?t 4] e
  have "length (js ''defghi'') \<le> 4 \<or> js ''defghi'' \<in> set (split_sp (trim (collapse_ws ?t)))"
    by auto
  then have "js ''defghi'' \<in> set (split_sp (trim (collapse_ws ?t)))" by (simp add: js_def)
  with e w show ?thesis by (simp add: js_def)
qed

section \<open>\<open>wrapText\<close> keeps every word\<close>

lemma join_sp_cons: "xs \<noteq> [] \<Longrightarrow> join_sp (x # xs) = x @ [sp] @ join_sp xs"
  by (cases xs) simp_all

lemma wrap_words_groups:
  assumes "[] \<notin> set bs" and "[] \<notin> set ws"
  shows "\<exists>gs. wrap_words measureText maxWidth (join_sp bs) ws = map join_sp gs
            \<and> [] \<notin> set gs \<and> concat gs = bs @ ws"
  using assms
proof (induction ws arbitrary: bs)
  case Nil
  show ?case
  proof (cases "bs = []")
    case True
    then show ?thesis by simp
  next
    case False
    with Nil have "join_sp bs \<noteq> []" by (simp add: join_sp_Nil_iff)
    then have "wrap_words measureText maxWidth (join_sp bs) [] = map join_sp [bs]" by simp
    with False show ?thesis by (metis append_Nil2 concat.simps list.set empty_iff insert_iff)
  qed
next
  case (Cons w ws)
  from Cons.prems have w: "w \<noteq> []" and ws: "[] \<notin> set ws" by auto
  have nb: "join_sp bs \<noteq> [] \<longleftrightarrow> bs \<noteq> []" using Cons.prems(1) by (simp add: join_sp_Nil_iff)
  have snoc: "(if join_sp bs \<noteq> [] then join_sp bs @ [sp] else []) @ w = join_sp (bs @ [w])"
    using nb by (cases "bs = []") (simp_all add: join_sp_snoc)
  show ?case
  proof (cases "measureText (join_sp (bs @ [w])) > maxWidth")
    case True
    from w have "[] \<notin> set [w]" by auto
    from Cons.IH [OF this ws] obtain gs where
      gs: "wrap_words measureText maxWidth (join_sp [w]) ws = map join_sp gs" "[] \<notin> set gs"
      "concat gs = [w] @ ws" by blast
    let ?gs = "(if bs \<noteq> [] then [bs] else []) @ gs"
    from True gs(1) nb snoc
    have "wrap_words measureText maxWidth (join_sp bs) (w # ws) = map join_sp ?gs"
      by (simp add: Let_def)
    moreover from gs(2) have "[] \<notin> set ?gs" by simp
    moreover from gs(3) have "concat ?gs = bs @ w # ws" by simp
    ultimately show ?thesis by blast
  next
    case False
    from Cons.prems(1) w have "[] \<notin> set (bs @ [w])" by auto
    from Cons.IH [OF this ws] obtain gs where
      "wrap_words measureText maxWidth (join_sp (bs @ [w])) ws = map join_sp gs" "[] \<notin> set gs"
      "concat gs = (bs @ [w]) @ ws" by blast
    with False snoc show ?thesis by (auto simp: Let_def)
  qed
qed

lemma join_sp_append:
  "xs \<noteq> [] \<Longrightarrow> ys \<noteq> [] \<Longrightarrow> join_sp (xs @ ys) = join_sp xs @ [sp] @ join_sp ys"
  by (induction xs rule: join_sp.induct) (auto simp: join_sp_cons)

lemma join_join:
  "[] \<notin> set gs \<Longrightarrow> join_sp (map join_sp gs) = join_sp (concat gs)"
proof (induction gs)
  case Nil
  then show ?case by simp
next
  case (Cons g gs)
  show ?case
  proof (cases "gs = []")
    case True
    then show ?thesis by simp
  next
    case False
    with Cons.prems have "concat gs \<noteq> []" by (cases gs) auto
    moreover from Cons.prems have "g \<noteq> []" by auto
    ultimately have "join_sp (g @ concat gs) = join_sp g @ [sp] @ join_sp (concat gs)"
      by (simp add: join_sp_append)
    with False Cons show ?thesis by (simp add: join_sp_cons)
  qed
qed

text \<open>
  C9: \<open>wrapText\<close> loses and duplicates nothing. Its lines joined by single spaces are the
  text with every run of whitespace collapsed to one space and trimmed; and the lines
  are groups of consecutive words of that text, each word in exactly one line, in the
  original order.
\<close>

theorem wrapText_lossless:
  "join_sp (wrapText measureText txt maxWidth) = trim (collapse_ws txt)
   \<and> (\<exists>gs. wrapText measureText txt maxWidth = map join_sp gs \<and> list_all (\<lambda>g. g \<noteq> []) gs
          \<and> concat gs = filter (\<lambda>w. w \<noteq> []) (split_sp (trim (collapse_ws txt))))"
proof (cases "trim (collapse_ws txt) = []")
  case True
  then have "split_sp (trim (collapse_ws txt)) = [[]]" by (simp add: split_sp_def)
  then have "wrapText measureText txt maxWidth = []" by (simp add: wrapText_def Let_def)
  with True show ?thesis by (simp add: split_sp_def)
next
  case False
  let ?words = "split_sp (trim (collapse_ws txt))"
  from False have ne: "[] \<notin> set ?words" by (rule words_no_empty)
  from wrap_words_groups [of "[]" ?words measureText maxWidth] ne obtain gs where
    gs: "wrap_words measureText maxWidth [] ?words = map join_sp gs" "[] \<notin> set gs"
    "concat gs = ?words" by auto
  from gs(1) have w: "wrapText measureText txt maxWidth = map join_sp gs"
    by (simp add: wrapText_def)
  from ne have f: "filter (\<lambda>w. w \<noteq> []) ?words = ?words" by (simp add: filter_id_conv) metis
  have "join_sp (wrapText measureText txt maxWidth) = join_sp (concat gs)"
    using w gs(2) by (simp add: join_join)
  also have "\<dots> = trim (collapse_ws txt)" using gs(3) by (simp add: join_split_sp)
  finally have "join_sp (wrapText measureText txt maxWidth) = trim (collapse_ws txt)" .
  moreover from gs(2) have "list_all (\<lambda>g. g \<noteq> []) gs" by (simp add: list_all_iff) metis
  ultimately show ?thesis using w gs(3) f by auto
qed

theorem wrapText_lossless_witness:
  "wrapText length (js ''ab  cd e  '') 4 = [js ''ab'', js ''cd e'']
   \<and> trim (collapse_ws (js ''ab  cd e  '')) = js ''ab cd e''
   \<and> join_sp (wrapText length (js ''ab  cd e  '') 4) = js ''ab cd e''"
proof -
  let ?t = "js ''ab  cd e  ''"
  have e: "wrapText length ?t 4 = [js ''ab'', js ''cd e'']"
    by (simp add: wrapText_def split_sp_def js_def trim_def is_space_def sp_def)
  have n: "trim (collapse_ws ?t) = js ''ab cd e''"
    by (simp add: js_def trim_def is_space_def sp_def)
  from wrapText_lossless [of length ?t 4] n
  have "join_sp (wrapText length ?t 4) = js ''ab cd e''" by simp
  with e n show ?thesis by simp
qed

section \<open>The length guard of \<open>handleGenerate\<close>\<close>

text \<open>
  C4, amended: when the trimmed text is longer than 200,000 characters,
  \<open>handleGenerate\<close> does one thing, the \<open>setState\<close> that stores the message in the
  \<open>error\<close> field. No stage is invoked, and the status and every other field of the job
  state stay as they were.
\<close>

theorem handleGenerate_too_long:
  assumes "length (trim (jobText (state w))) > 200000"
  shows "handleGenerate pf w =
           (Resolved (),
            w\<lparr>state := (state w)\<lparr>error := Some (js ''O texto excede 200.000 caracteres.'')\<rparr>,
              trace := trace w @
                [SetState ((state w)\<lparr>error := Some (js ''O texto excede 200.000 caracteres.'')\<rparr>)]\<rparr>)"
proof -
  from assms have "trim (jobText (state w)) \<noteq> []" by auto
  with assms show ?thesis
    by (simp add: handleGenerate_def Let_def setState_def emit_def)
qed

lemma trim_replicate: "\<not> is_space a \<Longrightarrow> trim (replicate n a) = replicate n a"
proof (cases n)
  case 0
  then show ?thesis by (simp add: trim_Nil)
next
  case (Suc m)
  assume "\<not> is_space a"
  with Suc show ?thesis by (intro trim_id) (simp_all add: last_replicate)
qed

theorem handleGenerate_too_long_witness:
  "length (trim (jobText (state (page_with (replicate 200001 0x61))))) > 200000
   \<and> (\<forall>pf. handleGenerate pf (page_with (replicate 200001 0x61)) =
        (Resolved (),
         \<lparr>state = initialState\<lparr>jobText := replicate 200001 0x61,
                   error := Some (js ''O texto excede 200.000 caracteres.'')\<rparr>,
          isBusy = False,
          trace = [SetState (initialState\<lparr>jobText := replicate 200001 0x61,
                   error := Some (js ''O texto excede 200.000 caracteres.'')\<rparr>)]\<rparr>))"
proof -
  have t: "trim (replicate 200001 (0x61 :: jschar)) = replicate 200001 0x61"
    by (rule trim_replicate) (simp add: is_space_def)
  then have h: "length (trim (jobText (state (page_with (replicate 200001 0x61))))) > 200000"
    by (simp add: page_with_def)
  from handleGenerate_too_long [OF h] h show ?thesis
    by (simp add: page_with_def)
qed

text \<open>
  C4 as stated fails: a text of 200,000 letters followed by one space is longer than
  200,000 characters, but its trimmed form is not, so the guard lets it pass and the
  capture request is made.
\<close>

theorem handleGenerate_long_counterexample:
  "length (replicate 200000 0x61 @ [sp]) > 200000
   \<and> GetDisplayMedia \<in> set (trace (snd (handleGenerate
         (refusing_platform (JsError (Some (js ''Permission denied'')) (js ''NotAllowedError: Permission denied'')))
         (page_with (replicate 200000 0x61 @ [sp])))))
   \<and> error (state (snd (handleGenerate
         (refusing_platform (JsError (Some (js ''Permission denied'')) (js ''NotAllowedError: Permission denied'')))
         (page_with (replicate 200000 0x61 @ [sp])))))
      = Some (js ''Permission denied'')"
proof -
  have "trim (replicate 200000 (0x61 :: jschar) @ [sp]) = trim (replicate 200000 0x61)"
    by (rule trim_append_space) (simp add: sp_space)
  also have "\<dots> = replicate 200000 0x61"
    by (rule trim_replicate) (simp add: is_space_def)
  finally have t: "trim (replicate 200000 (0x61 :: jschar) @ [sp]) = replicate 200000 0x61" .
  have ne: "replicate 200000 (0x61 :: jschar) \<noteq> []" by simp
  show ?thesis
    using t ne
    by (simp add: page_with_def handleGenerate_def handleGenerate_try_def Let_def
        speakAndRecord_def speakAndRecord_try_def await_def invoke_def
        refusing_platform_def setState_def emit_def setIsBusy_def error_text_def)
qed

section \<open>What the driver does to the page\<close>
















section \<open>A rejection inside the Speech-and-Capture Driver\<close>







section \<open>Chunks are spoken one after the other\<close>

lemma speak_from_in_sequence:
  "speak_from pf st n i cs w = (r, w') \<Longrightarrow>
     \<exists>evs. trace w' = trace w @ evs \<and> in_sequence (\<lambda>k. round25 pf k n) i cs evs
          \<and> (r = Resolved () \<longrightarrow> spoken evs = cs)"
proof (induction cs arbitrary: i w)
  case Nil
  then have "w' = w" "r = Resolved ()" by simp_all
  then show ?case using in_sequence.finished by fastforce
next
  case (Cons c cs)
  let ?u = "\<lparr>u_text = c,
        u_voice = (case voiceURI st of
                     Some v \<Rightarrow> if v \<in> set (voices pf) then Some v else None
                   | None \<Rightarrow> None),
        u_rate = rate st, u_pitch = pitch st, u_volume = volume st\<rparr>"
  let ?w1 = "speakChunk pf st i c w"
  have t1: "trace ?w1 = trace w @ [Speak i ?u]" by (simp add: speakChunk_def emit_def)
  show ?case
  proof (cases "utterance pf i c")
    case (Resolved x)
    let ?s = "(state w)\<lparr>progress := Some (round25 pf (Suc i) n)\<rparr>"
    let ?w2 = "setState (\<lambda>s. s\<lparr>progress := Some (round25 pf (i + 1) n)\<rparr>) (emit (UtteranceEnd i) ?w1)"
    have t2: "trace ?w2 = trace w @ [Speak i ?u, UtteranceEnd i, SetState ?s]"
      by (simp add: setState_def emit_def speakChunk_def)
    from Resolved Cons.prems have "speak_from pf st n (i + 1) cs ?w2 = (r, w')"
      by (simp add: Let_def)
    from Cons.IH [OF this] obtain evs where
      evs: "trace w' = trace ?w2 @ evs" "in_sequence (\<lambda>k. round25 pf k n) (Suc i) cs evs"
      "r = Resolved () \<longrightarrow> spoken evs = cs" by auto
    let ?evs = "Speak i ?u # UtteranceEnd i # SetState ?s # evs"
    from evs(1) t2 have "trace w' = trace w @ ?evs" by simp
    moreover from evs(2) have "in_sequence (\<lambda>k. round25 pf k n) i (c # cs) ?evs"
      by (intro in_sequence.ended) simp_all
    moreover from evs(3) have "r = Resolved () \<longrightarrow> spoken ?evs = c # cs" by simp
    ultimately show ?thesis by blast
  next
    case (Rejected e)
    with Cons.prems have "w' = emit (UtteranceError i e) ?w1" "r = Rejected e"
      by (simp_all add: Let_def)
    with t1 have "trace w' = trace w @ [Speak i ?u, UtteranceError i e]" "r \<noteq> Resolved ()"
      by (simp_all add: emit_def)
    moreover have "in_sequence (\<lambda>k. round25 pf k n) i (c # cs) [Speak i ?u, UtteranceError i e]"
      by (intro in_sequence.failed) simp
    ultimately show ?thesis by blast
  next
    case Pending
    with Cons.prems have "w' = ?w1" "r = Pending" by (simp_all add: Let_def)
    with t1 have "trace w' = trace w @ [Speak i ?u]" "r \<noteq> Resolved ()" by simp_all
    moreover have "in_sequence (\<lambda>k. round25 pf k n) i (c # cs) [Speak i ?u]"
      by (intro in_sequence.waiting) simp
    ultimately show ?thesis by blast
  qed
qed



lemma in_sequence_speak:
  "in_sequence pr i cs evs \<Longrightarrow> Speak j u \<in> set evs \<Longrightarrow>
     i \<le> j \<and> j - i < length cs \<and> u_text u = cs ! (j - i)"
proof (induction rule: in_sequence.induct)
  case (finished pr i)
  then show ?case by simp
next
  case (waiting u0 c pr i cs)
  then show ?case by auto
next
  case (failed u0 c pr i cs e)
  then show ?case by auto
next
  case (ended u0 c s0 pr i cs evs)
  from ended.prems have "(j = i \<and> u = u0) \<or> Speak j u \<in> set evs" by auto
  then show ?case
  proof
    assume "j = i \<and> u = u0"
    with ended.hyps(1) show ?thesis by simp
  next
    assume "Speak j u \<in> set evs"
    from ended.IH [OF this] have "Suc i \<le> j" "j - Suc i < length cs" "u_text u = cs ! (j - Suc i)"
      by simp_all
    moreover from \<open>Suc i \<le> j\<close> have "j - i = Suc (j - Suc i)" by simp
    ultimately show ?thesis by simp
  qed
qed





section \<open>The encoder calls of \<open>composeVideo\<close>\<close>

lemma execs_append: "execs (a @ b) = execs a @ execs b"
  by (induction a rule: execs.induct) simp_all

text \<open>
  C8: whatever the MP3 and PNG blobs, the platform and the job state, the \<open>ffmpeg.exec\<close>
  calls of \<open>composeVideo\<close> are the fixed probe of the audio file followed by one fixed
  encoding call (or a beginning of these two, when a step fails or hangs); when
  \<open>composeVideo\<close> resolves, both were made. The encoding call loops the still image
  (\<open>-loop 1\<close>), stops with the audio (\<open>-shortest\<close>), and fixes 30 frames a second,
  1920x1080, libx264, yuv420p, the faststart flag, and AAC audio at 192k. The progress
  callback is any callback that makes no encoder call itself.
\<close>

theorem composeVideo_fixed_recipe:
  assumes "\<forall>p v. execs (trace (onProgress p v)) = execs (trace v)"
  shows "\<exists>calls.
           execs (trace (snd (composeVideo pf mp3Blob imageBlob onProgress w)))
             = execs (trace w) @ calls
         \<and> (calls = [] \<or> calls = [[''-i'', ''audio.mp3'', ''-f'', ''null'', ''-'']]
             \<or> calls = [[''-i'', ''audio.mp3'', ''-f'', ''null'', ''-''],
                  [''-loop'', ''1'', ''-i'', ''bg.png'', ''-i'', ''audio.mp3'', ''-c:v'', ''libx264'',
                   ''-tune'', ''stillimage'', ''-c:a'', ''aac'', ''-b:a'', ''192k'',
                   ''-pix_fmt'', ''yuv420p'', ''-shortest'', ''-movflags'', ''+faststart'',
                   ''-vf'', ''fps=30,scale=1920:1080:flags=lanczos'', ''out.mp4'']])
         \<and> (\<forall>b. fst (composeVideo pf mp3Blob imageBlob onProgress w) = Resolved b \<longrightarrow>
               calls = [[''-i'', ''audio.mp3'', ''-f'', ''null'', ''-''],
                  [''-loop'', ''1'', ''-i'', ''bg.png'', ''-i'', ''audio.mp3'', ''-c:v'', ''libx264'',
                   ''-tune'', ''stillimage'', ''-c:a'', ''aac'', ''-b:a'', ''192k'',
                   ''-pix_fmt'', ''yuv420p'', ''-shortest'', ''-movflags'', ''+faststart'',
                   ''-vf'', ''fps=30,scale=1920:1080:flags=lanczos'', ''out.mp4'']])"
  using assms
  by (auto simp: composeVideo_def await_def invoke_def emit_def setState_def execs_append
      split: settled.splits)

theorem composeVideo_fixed_recipe_witness:
  "(\<forall>p v. execs (trace (setState (\<lambda>s. s\<lparr>progress := Some (max 70 p)\<rparr>) (v :: int world)))
          = execs (trace v))
   \<and> fst (composeVideo willing_platform (Blob [1] ''audio/mpeg'') (Blob [2] ''image/png'')
        (\<lambda>p. setState (\<lambda>s. s\<lparr>progress := Some (max 70 p)\<rparr>))
        (page_with (js ''Hello world. This is a test.''))) = Resolved (Blob [] ''video/mp4'')
   \<and> execs (trace (snd (composeVideo willing_platform (Blob [1] ''audio/mpeg'') (Blob [2] ''image/png'')
        (\<lambda>p. setState (\<lambda>s. s\<lparr>progress := Some (max 70 p)\<rparr>))
        (page_with (js ''Hello world. This is a test.'')))))
     = [[''-i'', ''audio.mp3'', ''-f'', ''null'', ''-''],
        [''-loop'', ''1'', ''-i'', ''bg.png'', ''-i'', ''audio.mp3'', ''-c:v'', ''libx264'',
         ''-tune'', ''stillimage'', ''-c:a'', ''aac'', ''-b:a'', ''192k'',
         ''-pix_fmt'', ''yuv420p'', ''-shortest'', ''-movflags'', ''+faststart'',
         ''-vf'', ''fps=30,scale=1920:1080:flags=lanczos'', ''out.mp4'']]"
proof -
  let ?cb = "\<lambda>p. setState (\<lambda>s. s\<lparr>progress := Some (max 70 p)\<rparr>) :: int world \<Rightarrow> int world"
  let ?W = "page_with (js ''Hello world. This is a test.'')"
  let ?run = "composeVideo willing_platform (Blob [1] ''audio/mpeg'') (Blob [2] ''image/png'') ?cb ?W"
  have h: "\<forall>p v. execs (trace (?cb p v)) = execs (trace v)"
    by (simp add: setState_def emit_def execs_append)
  have r: "fst ?run = Resolved (Blob [] ''video/mp4'')"
    by (simp add: composeVideo_def await_def invoke_def willing_platform_def)
  have "execs (trace ?W) = []" by (simp add: page_with_def)
  with composeVideo_fixed_recipe [OF h, of willing_platform "Blob [1] ''audio/mpeg''"
      "Blob [2] ''image/png''" ?W] r
  have "execs (trace (snd ?run)) =
      [[''-i'', ''audio.mp3'', ''-f'', ''null'', ''-''],
        [''-loop'', ''1'', ''-i'', ''bg.png'', ''-i'', ''audio.mp3'', ''-c:v'', ''libx264'',
         ''-tune'', ''stillimage'', ''-c:a'', ''aac'', ''-b:a'', ''192k'',
         ''-pix_fmt'', ''yuv420p'', ''-shortest'', ''-movflags'', ''+faststart'',
         ''-vf'', ''fps=30,scale=1920:1080:flags=lanczos'', ''out.mp4'']]"
    by auto
  with h r show ?thesis by blast
qed

section \<open>Every utterance is a non-empty, trimmed chunk\<close>

lemma speakText_utterances:
  assumes "speakText pf st txt w = (r, w')" and "Speak i u \<in> set (drop (length (trace w)) (trace w'))"
  shows "u_text u \<in> set (splitText txt 1800)"
proof -
  let ?chunks = "splitText txt 1800"
  let ?w0 = "if speaking pf then emit SynthCancel w else w"
  from assms(1) have "speak_from pf st (length ?chunks) 0 ?chunks ?w0 = (r, w')"
    by (simp add: speakText_def Let_def)
  from speak_from_in_sequence [OF this] obtain evs where
    tr: "trace w' = trace ?w0 @ evs"
    and seq: "in_sequence (\<lambda>k. round25 pf k (length ?chunks)) 0 ?chunks evs" by blast
  from tr have "drop (length (trace w)) (trace w') = evs
      \<or> drop (length (trace w)) (trace w') = SynthCancel # evs"
    by (simp add: emit_def)
  with assms(2) have "Speak i u \<in> set evs" by auto
  from in_sequence_speak [OF seq this] show ?thesis by simp
qed

text \<open>
  C10: when the trimmed input is not empty, every chunk of \<open>splitText\<close> is a non-empty
  string that equals its own trim; so in every run of \<open>speakText\<close> on such a text, every
  utterance handed to the synthesizer has a non-empty, trimmed text.
\<close>

theorem splitText_chunks_trimmed:
  assumes "trim input \<noteq> []"
  shows "(\<forall>c \<in> set (splitText input maxLen). c \<noteq> [] \<and> trim c = c)
       \<and> (\<forall>pf st w i u.
            Speak i u \<in> set (drop (length (trace w)) (trace (snd (speakText pf st input w)))) \<longrightarrow>
            u_text u \<noteq> [] \<and> trim (u_text u) = u_text u)"
proof -
  have chunks: "c \<noteq> [] \<and> trim c = c" if "c \<in> set (splitText input L)" for c L
    using assms that splitText_trimmed [of input c L] by (simp add: trimmed_def trim_id)
  have "u_text u \<noteq> [] \<and> trim (u_text u) = u_text u"
    if "Speak i u \<in> set (drop (length (trace w)) (trace (snd (speakText pf st input w))))"
    for pf st and w :: "'a world" and i u
  proof -
    have "speakText pf st input w = (fst (speakText pf st input w), snd (speakText pf st input w))"
      by simp
    from speakText_utterances [OF this that] chunks show ?thesis by blast
  qed
  with chunks show ?thesis by blast
qed

theorem splitText_chunks_trimmed_witness:
  "trim (js '' Hi. Yo! '') \<noteq> [] \<and> splitText (js '' Hi. Yo! '') 4 = [js ''Hi.'', js ''Yo!'']
   \<and> js ''Hi.'' \<noteq> [] \<and> trim (js ''Hi.'') = js ''Hi.''
   \<and> js ''Yo!'' \<noteq> [] \<and> trim (js ''Yo!'') = js ''Yo!''
   \<and> (\<exists>u. hd (trace (snd (speakText willing_platform (state (page_with (js '' Hi. Yo! '')))
                 (js '' Hi. Yo! '') (page_with (js '' Hi. Yo! ''))))) = Speak 0 u
          \<and> u_text u = js ''Hi. Yo!'' \<and> trim (u_text u) = u_text u)"
proof -
  let ?T = "js '' Hi. Yo! ''"
  let ?W = "page_with ?T"
  let ?run = "speakText willing_platform (state ?W) ?T ?W"
  have h: "trim ?T \<noteq> []"
    by (simp add: js_def trim_def is_space_def)
  have e: "splitText ?T 4 = [js ''Hi.'', js ''Yo!'']"
    by (simp add: splitText_def js_def trim_def is_space_def is_term_def is_nl_def sp_def)
  have e2: "splitText ?T 1800 = [js ''Hi. Yo!'']"
    by (simp add: splitText_def js_def trim_def is_space_def is_term_def is_nl_def sp_def)
  note t = splitText_chunks_trimmed [OF h]
  from t [of 4] have "\<forall>c\<in>set (splitText ?T 4). c \<noteq> [] \<and> trim c = c" by blast
  with e have c: "\<forall>c\<in>set [js ''Hi.'', js ''Yo!'']. c \<noteq> [] \<and> trim c = c" by simp
  have "\<exists>u rest. trace (snd ?run) = Speak 0 u # rest \<and> u_text u = js ''Hi. Yo!''"
    by (simp add: speakText_def e2 willing_platform_def Let_def speakChunk_def
        setState_def emit_def page_with_def)
  then obtain u rest where tr: "trace (snd ?run) = Speak 0 u # rest" "u_text u = js ''Hi. Yo!''"
    by blast
  then have "Speak 0 u \<in> set (drop (length (trace ?W)) (trace (snd ?run)))"
    by (simp add: page_with_def)
  with t [of 4] have "trim (u_text u) = u_text u" by blast
  with tr have "\<exists>u. hd (trace (snd ?run)) = Speak 0 u \<and> u_text u = js ''Hi. Yo!''
      \<and> trim (u_text u) = u_text u" by simp
  with h e c show ?thesis by simp
qed

end
